theory Spec2Isabelle
  imports Main
begin

section \<open>The game state of \<open>tic_tac_toe.py\<close>\<close>

text \<open>
  The class \<open>TicTacToe\<close> has two attributes: \<open>board\<close>, a list of rows, each a list of
  one-character Python strings, and \<open>current_player\<close>, a string. Cells and marks are
  kept as strings, as the source has them: \<open>' '\<close> is the empty cell, \<open>'X'\<close> and \<open>'O'\<close>
  are the two marks.
\<close>

type_synonym cell = string

abbreviation Empty :: cell where "Empty \<equiv> '' ''"
abbreviation MarkX :: cell where "MarkX \<equiv> ''X''"
abbreviation MarkO :: cell where "MarkO \<equiv> ''O''"

record game =
  board :: "cell list list"
  current_player :: cell

text \<open>
  Indexing a Python list raises \<open>IndexError\<close> out of range, and counts a negative
  index from the end: \<open>py_index\<close> is the position an index stands for in a list of
  length \<open>n\<close>. The model returns the error as a value. \<open>TypeError\<close> is used
  only by the store model below, for a reference to an object of the wrong kind.
\<close>

datatype error = IndexError | TypeError

definition py_index :: "nat \<Rightarrow> int \<Rightarrow> error + nat" where
  "py_index n i =
     (if 0 \<le> i \<and> i < int n then Inr (nat i)
      else if i < 0 \<and> 0 \<le> int n + i then Inr (nat (int n + i))
      else Inl IndexError)"

definition py_getitem :: "'a list \<Rightarrow> int \<Rightarrow> error + 'a" where
  "py_getitem xs i =
     (case py_index (length xs) i of Inl e \<Rightarrow> Inl e | Inr k \<Rightarrow> Inr (xs ! k))"

definition py_setitem :: "'a list \<Rightarrow> int \<Rightarrow> 'a \<Rightarrow> error + 'a list" where
  "py_setitem xs i v =
     (case py_index (length xs) i of Inl e \<Rightarrow> Inl e | Inr k \<Rightarrow> Inr (xs[k := v]))"

text \<open>\<open>__init__\<close>: two nested comprehensions over \<open>range(3)\<close>, then \<open>'X'\<close> to move.\<close>

definition new_board :: "cell list list" where
  "new_board = map (\<lambda>_. map (\<lambda>_. Empty) [0..<3]) [0..<3]"

definition init :: game where
  "init = \<lparr>board = new_board, current_player = MarkX\<rparr>"

text \<open>
  \<open>make_move\<close>: the bounds test, the occupancy test, then the assignment
  \<open>self.board[row][col] = self.current_player\<close> (a read of row \<open>row\<close> of the board and
  an in-place write of its item \<open>col\<close>) and the change of player. The result is the
  returned boolean with the state after the call. Here the board is a grid of values
  and the write replaces item \<open>col\<close> of row \<open>row\<close>; that is the effect of the in-place
  write when the three rows are distinct list objects, as they are in every state built
  by \<open>__init__\<close>, \<open>reset\<close> and \<open>make_move\<close>. The write on the row object itself, which
  also shows in every other row that is the same object, is \<open>store_make_move\<close> below.
\<close>

definition make_move :: "game \<Rightarrow> int \<Rightarrow> int \<Rightarrow> error + (bool \<times> game)" where
  "make_move g row col =
     (if \<not> ((0 \<le> row \<and> row < 3) \<and> (0 \<le> col \<and> col < 3)) then Inr (False, g)
      else
        (case py_getitem (board g) row of Inl e \<Rightarrow> Inl e | Inr r \<Rightarrow>
          (case py_getitem r col of Inl e \<Rightarrow> Inl e | Inr c \<Rightarrow>
            (if c \<noteq> Empty then Inr (False, g)
             else
               (case py_setitem r col (current_player g) of Inl e \<Rightarrow> Inl e | Inr r' \<Rightarrow>
                 (case py_setitem (board g) row r' of Inl e \<Rightarrow> Inl e | Inr b' \<Rightarrow>
                    Inr (True,
                         g\<lparr>board := b',
                           current_player :=
                             (if current_player g = MarkX then MarkO else MarkX)\<rparr>)))))))"

text \<open>
  A chained comparison \<open>a == b == c != ' '\<close> evaluates \<open>a\<close> and \<open>b\<close>, stops with
  false when they differ, and only then evaluates \<open>c\<close>; each operand here is an
  indexing expression that may raise.
\<close>

definition chain3 :: "error + cell \<Rightarrow> error + cell \<Rightarrow> error + cell \<Rightarrow> error + bool" where
  "chain3 x y z =
     (case x of Inl e \<Rightarrow> Inl e | Inr a \<Rightarrow>
       (case y of Inl e \<Rightarrow> Inl e | Inr b \<Rightarrow>
         (if a \<noteq> b then Inr False
          else (case z of Inl e \<Rightarrow> Inl e | Inr c \<Rightarrow> Inr (b = c \<and> c \<noteq> Empty)))))"

text \<open>\<open>self.board[i][j]\<close>.\<close>

definition board_item :: "cell list list \<Rightarrow> int \<Rightarrow> int \<Rightarrow> error + cell" where
  "board_item b i j = (case py_getitem b i of Inl e \<Rightarrow> Inl e | Inr r \<Rightarrow> py_getitem r j)"

text \<open>
  \<open>check_winner\<close>. Each loop is a recursion over what it iterates; \<open>Some w\<close> is a
  \<open>return w\<close> from inside the loop, \<open>None\<close> is the loop running to its end.
\<close>

fun check_rows :: "cell list list \<Rightarrow> error + cell option" where
  "check_rows [] = Inr None"
| "check_rows (row # rest) =
     (case chain3 (py_getitem row 0) (py_getitem row 1) (py_getitem row 2) of
        Inl e \<Rightarrow> Inl e
      | Inr t \<Rightarrow>
         (if t then (case py_getitem row 0 of Inl e \<Rightarrow> Inl e | Inr w \<Rightarrow> Inr (Some w))
          else check_rows rest))"

fun check_cols :: "cell list list \<Rightarrow> int list \<Rightarrow> error + cell option" where
  "check_cols b [] = Inr None"
| "check_cols b (col # rest) =
     (case chain3 (board_item b 0 col) (board_item b 1 col) (board_item b 2 col) of
        Inl e \<Rightarrow> Inl e
      | Inr t \<Rightarrow>
         (if t then (case board_item b 0 col of Inl e \<Rightarrow> Inl e | Inr w \<Rightarrow> Inr (Some w))
          else check_cols b rest))"

definition check_diagonals :: "cell list list \<Rightarrow> error + cell option" where
  "check_diagonals b =
     (case chain3 (board_item b 0 0) (board_item b 1 1) (board_item b 2 2) of
        Inl e \<Rightarrow> Inl e
      | Inr t \<Rightarrow>
         (if t then (case board_item b 0 0 of Inl e \<Rightarrow> Inl e | Inr w \<Rightarrow> Inr (Some w))
          else
            (case chain3 (board_item b 0 2) (board_item b 1 1) (board_item b 2 0) of
               Inl e \<Rightarrow> Inl e
             | Inr t' \<Rightarrow>
                (if t' then
                   (case board_item b 0 2 of Inl e \<Rightarrow> Inl e | Inr w \<Rightarrow> Inr (Some w))
                 else Inr None))))"

definition check_winner :: "game \<Rightarrow> error + cell option" where
  "check_winner g =
     (case check_rows (board g) of
        Inl e \<Rightarrow> Inl e
      | Inr (Some w) \<Rightarrow> Inr (Some w)
      | Inr None \<Rightarrow>
         (case check_cols (board g) [0, 1, 2] of
            Inl e \<Rightarrow> Inl e
          | Inr (Some w) \<Rightarrow> Inr (Some w)
          | Inr None \<Rightarrow> check_diagonals (board g)))"

text \<open>\<open>is_board_full\<close>: the first row containing \<open>' '\<close> ends the loop with false.\<close>

fun full_rows :: "cell list list \<Rightarrow> bool" where
  "full_rows [] = True"
| "full_rows (row # rest) = (if Empty \<in> set row then False else full_rows rest)"

definition is_board_full :: "game \<Rightarrow> bool" where
  "is_board_full g = full_rows (board g)"

text \<open>\<open>is_game_over\<close>: \<open>or\<close> evaluates its left operand first, which may raise.\<close>

definition is_game_over :: "game \<Rightarrow> error + bool" where
  "is_game_over g =
     (case check_winner g of Inl e \<Rightarrow> Inl e | Inr w \<Rightarrow> Inr (w \<noteq> None \<or> is_board_full g))"

text \<open>
  \<open>get_board\<close>: a new list of the slices \<open>row[:]\<close>. As a value, a full slice is the row
  itself; that the copy shares no list object with the board is the subject of the
  store model further down.
\<close>

definition get_board :: "game \<Rightarrow> cell list list" where
  "get_board g = map (\<lambda>row. row) (board g)"

definition reset :: "game \<Rightarrow> game" where
  "reset g = g\<lparr>board := new_board, current_player := MarkX\<rparr>"

subsection \<open>Method calls on one instance\<close>

text \<open>
  A caller drives the object by a sequence of method calls. Each call yields the
  returned value and the state of the object after it; the four queries have no
  assignment to \<open>self\<close> in their bodies, so they hand the state back as it was.
\<close>

datatype call = MakeMove int int | CheckWinner | IsBoardFull | IsGameOver | GetBoard | Reset

datatype ret = RetBool bool | RetWinner "cell option" | RetBoard "cell list list" | RetNone

fun call_method :: "game \<Rightarrow> call \<Rightarrow> error + (ret \<times> game)" where
  "call_method g (MakeMove row col) =
     (case make_move g row col of Inl e \<Rightarrow> Inl e | Inr (ok, g') \<Rightarrow> Inr (RetBool ok, g'))"
| "call_method g CheckWinner =
     (case check_winner g of Inl e \<Rightarrow> Inl e | Inr w \<Rightarrow> Inr (RetWinner w, g))"
| "call_method g IsBoardFull = Inr (RetBool (is_board_full g), g)"
| "call_method g IsGameOver =
     (case is_game_over g of Inl e \<Rightarrow> Inl e | Inr v \<Rightarrow> Inr (RetBool v, g))"
| "call_method g GetBoard = Inr (RetBoard (get_board g), g)"
| "call_method g Reset = Inr (RetNone, reset g)"

fun run :: "game \<Rightarrow> call list \<Rightarrow> error + game" where
  "run g [] = Inr g"
| "run g (c # cs) = (case call_method g c of Inl e \<Rightarrow> Inl e | Inr (_, g') \<Rightarrow> run g' cs)"

text \<open>A sequence of \<open>make_move\<close> calls, given by its coordinates.\<close>

definition moves :: "(int \<times> int) list \<Rightarrow> call list" where
  "moves ms = map (\<lambda>(row, col). MakeMove row col) ms"

section \<open>Well-formed states\<close>

definition wf_board :: "cell list list \<Rightarrow> bool" where
  "wf_board b = (length b = 3 \<and> list_all (\<lambda>r. length r = 3) b)"

text \<open>The cell at (row, col) of a board, for indices within the grid.\<close>

definition cell_at :: "cell list list \<Rightarrow> nat \<Rightarrow> nat \<Rightarrow> cell" where
  "cell_at b i j = b ! i ! j"

subsection \<open>Winning lines, as the specification describes them\<close>

text \<open>
  A line is three coordinates. The scan order is the three rows, the three columns,
  the main diagonal and the anti-diagonal. A line wins when its three cells are equal
  and not empty; the winner is the mark on the first winning line of the scan order.
\<close>

type_synonym line = "(nat \<times> nat) \<times> (nat \<times> nat) \<times> (nat \<times> nat)"

definition row_lines :: "line list" where
  "row_lines = [((0, 0), (0, 1), (0, 2)), ((1, 0), (1, 1), (1, 2)), ((2, 0), (2, 1), (2, 2))]"

definition col_lines :: "line list" where
  "col_lines = [((0, 0), (1, 0), (2, 0)), ((0, 1), (1, 1), (2, 1)), ((0, 2), (1, 2), (2, 2))]"

definition diag_lines :: "line list" where
  "diag_lines = [((0, 0), (1, 1), (2, 2)), ((0, 2), (1, 1), (2, 0))]"

definition scan_order :: "line list" where
  "scan_order = row_lines @ col_lines @ diag_lines"

definition at :: "cell list list \<Rightarrow> nat \<times> nat \<Rightarrow> cell" where
  "at b p = cell_at b (fst p) (snd p)"

definition line_wins :: "cell list list \<Rightarrow> line \<Rightarrow> bool" where
  "line_wins b l = (case l of (p, q, r) \<Rightarrow> at b p = at b q \<and> at b q = at b r \<and> at b p \<noteq> Empty)"

definition line_mark :: "cell list list \<Rightarrow> line \<Rightarrow> cell" where
  "line_mark b l = (case l of (p, q, r) \<Rightarrow> at b p)"

definition first_winner :: "cell list list \<Rightarrow> cell option" where
  "first_winner b = map_option (line_mark b) (find (line_wins b) scan_order)"

subsection \<open>Who made each successful move\<close>

text \<open>
  For a sequence of \<open>make_move\<close> calls, the marks of the players whose moves were
  accepted, in order: the value of \<open>current_player\<close> at the moment of each call that
  returned true, which is the mark that call wrote to the board.
\<close>

fun movers :: "game \<Rightarrow> (int \<times> int) list \<Rightarrow> error + cell list" where
  "movers g [] = Inr []"
| "movers g ((row, col) # ms) =
     (case make_move g row col of
        Inl e \<Rightarrow> Inl e
      | Inr (ok, g') \<Rightarrow>
         (case movers g' ms of
            Inl e \<Rightarrow> Inl e
          | Inr ps \<Rightarrow> Inr (if ok then current_player g # ps else ps)))"

definition other_mark :: "cell \<Rightarrow> cell" where
  "other_mark m = (if m = MarkX then MarkO else MarkX)"

subsection \<open>Counting marks\<close>

text \<open>The number of cells of a board that hold a given mark.\<close>

definition count_mark :: "cell \<Rightarrow> cell list list \<Rightarrow> nat" where
  "count_mark m b = sum_list (map (\<lambda>row. count_list row m) b)"

definition parity_inv :: "game \<Rightarrow> bool" where
  "parity_inv g =
     ((current_player g = MarkX \<and> count_mark MarkX (board g) = count_mark MarkO (board g))
      \<or> (current_player g = MarkO
          \<and> count_mark MarkX (board g) = count_mark MarkO (board g) + 1))"

section \<open>The board as objects in a store\<close>

text \<open>
  Python lists are objects, and a variable or a list item holds a reference to one.
  For \<open>get_board\<close> this matters: its result must share no list object with
  \<open>self.board\<close>. The store is the sequence of list objects allocated so far, a
  reference is a position in it, and a new object goes to the end. A row object holds
  strings, which are immutable values; the board object holds references to row
  objects. Reading a reference that is not a list of the expected kind is a
  \<open>TypeError\<close>.
\<close>

type_synonym addr = nat

datatype obj = Cells "cell list" | Rows "addr list"

type_synonym store = "obj list"

definition alloc :: "store \<Rightarrow> obj \<Rightarrow> store \<times> addr" where
  "alloc h ob = (h @ [ob], length h)"

definition rows_of :: "store \<Rightarrow> addr \<Rightarrow> error + addr list" where
  "rows_of h p =
     (if p < length h then (case h ! p of Rows as \<Rightarrow> Inr as | Cells cs \<Rightarrow> Inl TypeError)
      else Inl TypeError)"

definition cells_of :: "store \<Rightarrow> addr \<Rightarrow> error + cell list" where
  "cells_of h a =
     (if a < length h then (case h ! a of Cells cs \<Rightarrow> Inr cs | Rows as \<Rightarrow> Inl TypeError)
      else Inl TypeError)"

text \<open>The grid of strings that a reference to a board object stands for.\<close>

fun views :: "store \<Rightarrow> addr list \<Rightarrow> error + cell list list" where
  "views h [] = Inr []"
| "views h (a # as) =
     (case cells_of h a of
        Inl e \<Rightarrow> Inl e
      | Inr cs \<Rightarrow> (case views h as of Inl e \<Rightarrow> Inl e | Inr b \<Rightarrow> Inr (cs # b)))"

definition view :: "store \<Rightarrow> addr \<Rightarrow> error + cell list list" where
  "view h p = (case rows_of h p of Inl e \<Rightarrow> Inl e | Inr as \<Rightarrow> views h as)"

text \<open>
  \<open>get_board\<close> on the store, for a game whose attribute \<open>board\<close> is the reference \<open>p\<close>:
  the comprehension \<open>[row[:] for row in self.board]\<close> allocates one new row object per
  row, each holding the items of the slice, and a new list object holding the
  references to them. The result is the store after the call and the reference
  returned.
\<close>

fun copy_rows :: "store \<Rightarrow> addr list \<Rightarrow> error + (store \<times> addr list)" where
  "copy_rows h [] = Inr (h, [])"
| "copy_rows h (a # as) =
     (case cells_of h a of
        Inl e \<Rightarrow> Inl e
      | Inr cs \<Rightarrow>
         (case alloc h (Cells cs) of (h1, a') \<Rightarrow>
           (case copy_rows h1 as of
              Inl e \<Rightarrow> Inl e
            | Inr (h2, as') \<Rightarrow> Inr (h2, a' # as'))))"

definition store_get_board :: "store \<Rightarrow> addr \<Rightarrow> error + (store \<times> addr)" where
  "store_get_board h p =
     (case rows_of h p of
        Inl e \<Rightarrow> Inl e
      | Inr as \<Rightarrow>
         (case copy_rows h as of
            Inl e \<Rightarrow> Inl e
          | Inr (h1, as') \<Rightarrow> Inr (alloc h1 (Rows as'))))"

text \<open>
  What a caller can do to a board it holds a reference \<open>q\<close> to: the assignment
  \<open>q[i][j] = v\<close>, which reads item \<open>i\<close> of the list and writes item \<open>j\<close> of the row
  object found there, in place.
\<close>

definition store_assign_cell :: "store \<Rightarrow> addr \<Rightarrow> int \<Rightarrow> int \<Rightarrow> cell \<Rightarrow> error + store" where
  "store_assign_cell h q i j v =
     (case rows_of h q of
        Inl e \<Rightarrow> Inl e
      | Inr as \<Rightarrow>
         (case py_getitem as i of
            Inl e \<Rightarrow> Inl e
          | Inr a \<Rightarrow>
             (case cells_of h a of
                Inl e \<Rightarrow> Inl e
              | Inr cs \<Rightarrow>
                 (case py_setitem cs j v of
                    Inl e \<Rightarrow> Inl e
                  | Inr cs' \<Rightarrow> Inr (h[a := Cells cs'])))))"

text \<open>
  The construction of the board in \<open>__init__\<close> and \<open>reset\<close> on the store: the inner
  comprehension allocates a new row object at each round of the outer one.
\<close>

fun new_rows :: "store \<Rightarrow> nat list \<Rightarrow> store \<times> addr list" where
  "new_rows h [] = (h, [])"
| "new_rows h (k # ks) =
     (case alloc h (Cells (map (\<lambda>_. Empty) [0..<3])) of (h1, a) \<Rightarrow>
       (case new_rows h1 ks of (h2, as) \<Rightarrow> (h2, a # as)))"

definition store_new_board :: "store \<Rightarrow> store \<times> addr" where
  "store_new_board h = (case new_rows h [0..<3] of (h1, as) \<Rightarrow> alloc h1 (Rows as))"

text \<open>
  \<open>make_move\<close> on the store, for a game whose attribute \<open>board\<close> is the reference \<open>p\<close>
  and whose \<open>current_player\<close> is \<open>cp\<close>. The result is the returned boolean, the store
  and the player after the call.
\<close>

definition store_make_move ::
    "store \<Rightarrow> addr \<Rightarrow> cell \<Rightarrow> int \<Rightarrow> int \<Rightarrow> error + (bool \<times> store \<times> cell)" where
  "store_make_move h p cp row col =
     (if \<not> ((0 \<le> row \<and> row < 3) \<and> (0 \<le> col \<and> col < 3)) then Inr (False, h, cp)
      else
        (case rows_of h p of Inl e \<Rightarrow> Inl e | Inr as \<Rightarrow>
          (case py_getitem as row of Inl e \<Rightarrow> Inl e | Inr a \<Rightarrow>
            (case cells_of h a of Inl e \<Rightarrow> Inl e | Inr cs \<Rightarrow>
              (case py_getitem cs col of Inl e \<Rightarrow> Inl e | Inr c \<Rightarrow>
                (if c \<noteq> Empty then Inr (False, h, cp)
                 else
                   (case store_assign_cell h p row col cp of Inl e \<Rightarrow> Inl e | Inr h' \<Rightarrow>
                      Inr (True, h', if cp = MarkX then MarkO else MarkX))))))))"

section \<open>Facts about the board\<close>

lemma wf_board_row: "wf_board b \<Longrightarrow> i < 3 \<Longrightarrow> length (b ! i) = 3"
  by (simp add: wf_board_def list_all_length)

lemma make_move_out_of_range:
  "\<not> (0 \<le> row \<and> row < 3 \<and> 0 \<le> col \<and> col < 3) \<Longrightarrow> make_move g row col = Inr (False, g)"
  by (auto simp: make_move_def)

lemma make_move_occupied:
  assumes "wf_board (board g)" "0 \<le> row" "row < 3" "0 \<le> col" "col < 3"
    and "cell_at (board g) (nat row) (nat col) \<noteq> Empty"
  shows "make_move g row col = Inr (False, g)"
proof -
  have r: "py_getitem (board g) row = Inr (board g ! nat row)"
    using assms by (simp add: py_getitem_def py_index_def wf_board_def)
  have "length (board g ! nat row) = 3"
    using assms by (intro wf_board_row) auto
  then have c: "py_getitem (board g ! nat row) col = Inr (board g ! nat row ! nat col)"
    using assms by (simp add: py_getitem_def py_index_def)
  show ?thesis
    using assms r c by (simp add: make_move_def cell_at_def)
qed

lemma length_three: "length xs = 3 \<Longrightarrow> \<exists>a b c. xs = [a, b, c]"
  by (cases xs; simp; rename_tac x ys; case_tac ys; simp; rename_tac y zs; case_tac zs; simp)

lemma wf_board_cells:
  assumes "wf_board b"
  shows "\<exists>a0 a1 a2 b0 b1 b2 c0 c1 c2. b = [[a0, a1, a2], [b0, b1, b2], [c0, c1, c2]]"
proof -
  from assms obtain r0 r1 r2 where b: "b = [r0, r1, r2]"
    using length_three [of b] by (auto simp: wf_board_def)
  with assms have "length r0 = 3" "length r1 = 3" "length r2 = 3"
    by (simp_all add: wf_board_def)
  then show ?thesis
    using b length_three [of r0] length_three [of r1] length_three [of r2] by auto
qed

lemma index_cases: "(0::int) \<le> i \<Longrightarrow> i < 3 \<Longrightarrow> i = 0 \<or> i = 1 \<or> i = 2"
  by arith

lemma nat_index_cases: "(i::nat) < 3 \<Longrightarrow> i = 0 \<or> i = 1 \<or> i = 2"
  by arith

lemma new_board_cells:
  "new_board = [[Empty, Empty, Empty], [Empty, Empty, Empty], [Empty, Empty, Empty]]"
  by (simp add: new_board_def upt_rec)

lemma wf_new_board: "wf_board new_board"
  by (simp add: wf_board_def new_board_cells)

lemma make_move_empty:
  assumes "wf_board (board g)" "0 \<le> row" "row < 3" "0 \<le> col" "col < 3"
    and "cell_at (board g) (nat row) (nat col) = Empty"
  shows "make_move g row col =
           Inr (True, g\<lparr>board := (board g)[nat row := (board g ! nat row)[nat col := current_player g]],
                        current_player := (if current_player g = MarkX then MarkO else MarkX)\<rparr>)"
proof -
  have r: "py_getitem (board g) row = Inr (board g ! nat row)"
    using assms by (simp add: py_getitem_def py_index_def wf_board_def)
  have len: "length (board g ! nat row) = 3"
    using assms by (intro wf_board_row) auto
  then have c: "py_getitem (board g ! nat row) col = Inr (board g ! nat row ! nat col)"
    using assms by (simp add: py_getitem_def py_index_def)
  have w: "py_setitem (board g ! nat row) col (current_player g)
             = Inr ((board g ! nat row)[nat col := current_player g])"
    using assms len by (simp add: py_setitem_def py_index_def)
  have w': "py_setitem (board g) row ((board g ! nat row)[nat col := current_player g])
             = Inr ((board g)[nat row := (board g ! nat row)[nat col := current_player g]])"
    using assms by (simp add: py_setitem_def py_index_def wf_board_def)
  show ?thesis
    using assms r c w w' by (simp add: make_move_def cell_at_def)
qed

lemma wf_board_update:
  "wf_board b \<Longrightarrow> i < 3 \<Longrightarrow> wf_board (b[i := (b ! i)[j := v]])"
  by (auto simp: wf_board_def list_all_length nth_list_update)

lemma cell_at_update:
  "wf_board b \<Longrightarrow> i < 3 \<Longrightarrow> j < 3 \<Longrightarrow> i' < 3 \<Longrightarrow> j' < 3 \<Longrightarrow>
   cell_at (b[i := (b ! i)[j := v]]) i' j' = (if i' = i \<and> j' = j then v else cell_at b i' j')"
  by (auto simp: cell_at_def wf_board_def list_all_length nth_list_update)

section \<open>Rejected moves\<close>

text \<open>
  C1. On a 3x3 board, whenever \<open>row\<close> or \<open>col\<close> lies outside 0..2 or the target cell
  is not empty, \<open>make_move\<close> returns \<open>False\<close> without raising, and the state after the
  call is the state before it: the whole board and \<open>current_player\<close>.
\<close>

theorem make_move_rejected:
  assumes "wf_board (board g)"
    and "\<not> (0 \<le> row \<and> row < 3 \<and> 0 \<le> col \<and> col < 3)
         \<or> cell_at (board g) (nat row) (nat col) \<noteq> Empty"
  shows "make_move g row col = Inr (False, g)"
proof (cases "0 \<le> row \<and> row < 3 \<and> 0 \<le> col \<and> col < 3")
  case True
  with assms show ?thesis by (intro make_move_occupied) auto
next
  case False
  then show ?thesis by (rule make_move_out_of_range)
qed

theorem make_move_rejected_witness:
  "wf_board (board \<lparr>board = [[MarkX, Empty, Empty], [Empty, MarkO, Empty], [Empty, Empty, Empty]],
                     current_player = MarkX\<rparr>)
   \<and> cell_at [[MarkX, Empty, Empty], [Empty, MarkO, Empty], [Empty, Empty, Empty]] (nat 1) (nat 1)
       \<noteq> Empty
   \<and> make_move \<lparr>board = [[MarkX, Empty, Empty], [Empty, MarkO, Empty], [Empty, Empty, Empty]],
                 current_player = MarkX\<rparr> 1 1
       = Inr (False, \<lparr>board = [[MarkX, Empty, Empty], [Empty, MarkO, Empty], [Empty, Empty, Empty]],
                      current_player = MarkX\<rparr>)
   \<and> make_move init 3 (- 1) = Inr (False, init)"
proof -
  let ?g = "\<lparr>board = [[MarkX, Empty, Empty], [Empty, MarkO, Empty], [Empty, Empty, Empty]],
             current_player = MarkX\<rparr>"
  have h1: "wf_board (board ?g)" by (simp add: wf_board_def)
  have h2: "cell_at (board ?g) (nat 1) (nat 1) \<noteq> Empty" by (simp add: cell_at_def)
  have h3: "wf_board (board init)" by (simp add: init_def wf_new_board)
  have c1: "make_move ?g 1 1 = Inr (False, ?g)"
    using make_move_rejected [of ?g 1 1] h1 h2 by blast
  have c2: "make_move init 3 (- 1) = Inr (False, init)"
    using make_move_rejected [of init 3 "- 1"] h3 by simp
  show ?thesis using h1 h2 c1 c2 by simp
qed

section \<open>The winner\<close>

lemma chain3_Inr: "chain3 (Inr a) (Inr b) (Inr c) = Inr (a = b \<and> b = c \<and> c \<noteq> Empty)"
  by (simp add: chain3_def)

lemma board_item_cells:
  assumes "b = [[a0, a1, a2], [b0, b1, b2], [c0, c1, c2]]"
  shows "board_item b 0 0 = Inr a0" "board_item b 0 1 = Inr a1" "board_item b 0 2 = Inr a2"
    "board_item b 1 0 = Inr b0" "board_item b 1 1 = Inr b1" "board_item b 1 2 = Inr b2"
    "board_item b 2 0 = Inr c0" "board_item b 2 1 = Inr c1" "board_item b 2 2 = Inr c2"
  using assms by (simp_all add: board_item_def py_getitem_def py_index_def)

lemma check_rows_step:
  "check_rows ([x, y, z] # rest) =
     (if x = y \<and> y = z \<and> z \<noteq> Empty then Inr (Some x) else check_rows rest)"
  by (simp add: py_getitem_def py_index_def chain3_Inr)

lemma check_cols_step:
  assumes "board_item b 0 col = Inr x" "board_item b 1 col = Inr y" "board_item b 2 col = Inr z"
  shows "check_cols b (col # rest) =
     (if x = y \<and> y = z \<and> z \<noteq> Empty then Inr (Some x) else check_cols b rest)"
  using assms by (simp add: chain3_Inr)

lemma find_three:
  "map_option f (find P [l1, l2, l3]) =
     (if P l1 then Some (f l1) else if P l2 then Some (f l2) else if P l3 then Some (f l3)
      else None)"
  by simp

lemma find_two:
  "map_option f (find P [l1, l2]) =
     (if P l1 then Some (f l1) else if P l2 then Some (f l2) else None)"
  by simp

lemma Inr_if: "Inr (if c then x else y) = (if c then Inr x else Inr y)"
  by simp

lemma line_wins_cells:
  assumes "b = [[a0, a1, a2], [b0, b1, b2], [c0, c1, c2]]"
  shows "line_wins b ((0, 0), (0, 1), (0, 2)) = (a0 = a1 \<and> a1 = a2 \<and> a2 \<noteq> Empty)"
    "line_wins b ((1, 0), (1, 1), (1, 2)) = (b0 = b1 \<and> b1 = b2 \<and> b2 \<noteq> Empty)"
    "line_wins b ((2, 0), (2, 1), (2, 2)) = (c0 = c1 \<and> c1 = c2 \<and> c2 \<noteq> Empty)"
    "line_wins b ((0, 0), (1, 0), (2, 0)) = (a0 = b0 \<and> b0 = c0 \<and> c0 \<noteq> Empty)"
    "line_wins b ((0, 1), (1, 1), (2, 1)) = (a1 = b1 \<and> b1 = c1 \<and> c1 \<noteq> Empty)"
    "line_wins b ((0, 2), (1, 2), (2, 2)) = (a2 = b2 \<and> b2 = c2 \<and> c2 \<noteq> Empty)"
    "line_wins b ((0, 0), (1, 1), (2, 2)) = (a0 = b1 \<and> b1 = c2 \<and> c2 \<noteq> Empty)"
    "line_wins b ((0, 2), (1, 1), (2, 0)) = (a2 = b1 \<and> b1 = c0 \<and> c0 \<noteq> Empty)"
  unfolding assms by (auto simp: line_wins_def at_def cell_at_def)

lemma line_mark_cells:
  assumes "b = [[a0, a1, a2], [b0, b1, b2], [c0, c1, c2]]"
  shows "line_mark b ((0, 0), l) = a0" "line_mark b ((1, 0), l) = b0"
    "line_mark b ((2, 0), l) = c0" "line_mark b ((0, 1), l) = a1" "line_mark b ((0, 2), l) = a2"
  unfolding assms by (simp_all add: line_mark_def at_def cell_at_def)

lemma check_rows_find:
  assumes "b = [[a0, a1, a2], [b0, b1, b2], [c0, c1, c2]]"
  shows "check_rows b = Inr (map_option (line_mark b) (find (line_wins b) row_lines))"
proof -
  have "check_rows b =
      (if a0 = a1 \<and> a1 = a2 \<and> a2 \<noteq> Empty then Inr (Some a0)
       else if b0 = b1 \<and> b1 = b2 \<and> b2 \<noteq> Empty then Inr (Some b0)
       else if c0 = c1 \<and> c1 = c2 \<and> c2 \<noteq> Empty then Inr (Some c0)
       else Inr None)"
    unfolding assms by (simp only: check_rows_step check_rows.simps(1))
  also have "\<dots> = Inr (map_option (line_mark b) (find (line_wins b) row_lines))"
    by (simp only: row_lines_def find_three line_wins_cells [OF assms]
        line_mark_cells [OF assms] Inr_if)
  finally show ?thesis .
qed

lemma check_cols_find:
  assumes "b = [[a0, a1, a2], [b0, b1, b2], [c0, c1, c2]]"
  shows "check_cols b [0, 1, 2] = Inr (map_option (line_mark b) (find (line_wins b) col_lines))"
proof -
  have "check_cols b [0, 1, 2] =
      (if a0 = b0 \<and> b0 = c0 \<and> c0 \<noteq> Empty then Inr (Some a0)
       else if a1 = b1 \<and> b1 = c1 \<and> c1 \<noteq> Empty then Inr (Some a1)
       else if a2 = b2 \<and> b2 = c2 \<and> c2 \<noteq> Empty then Inr (Some a2)
       else Inr None)"
    by (simp only: check_cols_step [OF board_item_cells(1,4,7) [OF assms]]
        check_cols_step [OF board_item_cells(2,5,8) [OF assms]]
        check_cols_step [OF board_item_cells(3,6,9) [OF assms]] check_cols.simps(1))
  also have "\<dots> = Inr (map_option (line_mark b) (find (line_wins b) col_lines))"
    by (simp only: col_lines_def find_three line_wins_cells [OF assms]
        line_mark_cells [OF assms] Inr_if)
  finally show ?thesis .
qed

lemma check_diagonals_find:
  assumes "b = [[a0, a1, a2], [b0, b1, b2], [c0, c1, c2]]"
  shows "check_diagonals b = Inr (map_option (line_mark b) (find (line_wins b) diag_lines))"
proof -
  have "check_diagonals b =
      (if a0 = b1 \<and> b1 = c2 \<and> c2 \<noteq> Empty then Inr (Some a0)
       else if a2 = b1 \<and> b1 = c0 \<and> c0 \<noteq> Empty then Inr (Some a2)
       else Inr None)"
    by (simp add: check_diagonals_def board_item_cells [OF assms] chain3_Inr)
  also have "\<dots> = Inr (map_option (line_mark b) (find (line_wins b) diag_lines))"
    by (simp only: diag_lines_def find_two line_wins_cells [OF assms]
        line_mark_cells [OF assms] Inr_if)
  finally show ?thesis .
qed

lemma find_append_case:
  "find P (xs @ ys) = (case find P xs of Some x \<Rightarrow> Some x | None \<Rightarrow> find P ys)"
  by (induction xs) auto

lemma check_winner_find:
  assumes "wf_board (board g)"
  shows "check_winner g = Inr (first_winner (board g))"
proof -
  from wf_board_cells [OF assms] obtain a0 a1 a2 b0 b1 b2 c0 c1 c2
    where b: "board g = [[a0, a1, a2], [b0, b1, b2], [c0, c1, c2]]" by blast
  show ?thesis
    unfolding check_winner_def first_winner_def scan_order_def find_append_case
        check_rows_find [OF b] check_cols_find [OF b] check_diagonals_find [OF b]
    by (simp split: option.splits)
qed


lemma line_wins_mark: "line_wins b l \<Longrightarrow> line_mark b l \<noteq> Empty"
  by (auto simp: line_wins_def line_mark_def)

lemma first_winner_SomeD:
  assumes "first_winner b = Some w"
  shows "\<exists>l \<in> set scan_order. line_wins b l \<and> w = line_mark b l"
proof -
  from assms obtain l where l: "find (line_wins b) scan_order = Some l" "w = line_mark b l"
    by (auto simp: first_winner_def)
  from l(1) have "line_wins b l" "l \<in> set scan_order"
    by (auto simp: find_Some_iff)
  with l(2) show ?thesis by blast
qed

lemma first_winner_not_Empty: "first_winner b \<noteq> Some Empty"
proof
  assume "first_winner b = Some Empty"
  from first_winner_SomeD [OF this] show False
    using line_wins_mark by metis
qed

lemma first_winner_None: "first_winner b = None \<longleftrightarrow> (\<forall>l \<in> set scan_order. \<not> line_wins b l)"
  by (auto simp: first_winner_def find_None_iff)

lemma scan_order_mark:
  assumes "l \<in> set scan_order"
    and c: "\<forall>i < 3. \<forall>j < 3. cell_at b i j \<in> {Empty, MarkX, MarkO}"
  shows "line_mark b l \<in> {Empty, MarkX, MarkO}"
proof -
  have m: "cell_at b i j \<in> {Empty, MarkX, MarkO}" if "i < 3" "j < 3" for i j
    using c that by blast
  have mem: "line_mark b l \<in> {cell_at b 0 0, cell_at b 1 0, cell_at b 2 0, cell_at b 0 1, cell_at b 0 2}"
    using assms(1)
    by (auto simp: scan_order_def row_lines_def col_lines_def diag_lines_def line_mark_def at_def)
  have f: "cell_at b 0 0 \<in> {Empty, MarkX, MarkO}" "cell_at b 1 0 \<in> {Empty, MarkX, MarkO}"
    "cell_at b 2 0 \<in> {Empty, MarkX, MarkO}" "cell_at b 0 1 \<in> {Empty, MarkX, MarkO}"
    "cell_at b 0 2 \<in> {Empty, MarkX, MarkO}"
    by (rule m; simp)+
  from mem show ?thesis
    by (elim insertE emptyE) (simp_all only: f)
qed

lemma first_winner_mark:
  assumes "\<forall>i < 3. \<forall>j < 3. cell_at b i j \<in> {Empty, MarkX, MarkO}"
  shows "first_winner b \<in> {None, Some MarkX, Some MarkO}"
proof (cases "first_winner b")
  case None
  then show ?thesis by simp
next
  case (Some w)
  from first_winner_SomeD [OF Some] obtain l
    where l: "l \<in> set scan_order" "line_wins b l" "w = line_mark b l" by blast
  have "line_mark b l \<in> {Empty, MarkX, MarkO}" using l(1) assms by (rule scan_order_mark)
  moreover have "line_mark b l \<noteq> Empty" using l(2) by (rule line_wins_mark)
  ultimately show ?thesis using Some l(3) by auto
qed

text \<open>
  C3. On every 3x3 board, reachable by play or not, \<open>check_winner\<close> raises nothing and
  returns the mark of the first winning line in the order rows, columns, main diagonal,
  anti-diagonal, or \<open>None\<close> exactly when no line wins; it never returns the empty cell,
  and on a board of empty cells and marks it returns \<open>None\<close>, \<open>'X'\<close> or \<open>'O'\<close>.
\<close>

theorem check_winner_scan:
  assumes "wf_board (board g)"
  shows "check_winner g = Inr (first_winner (board g))
    \<and> check_winner g \<noteq> Inr (Some Empty)
    \<and> (check_winner g = Inr None \<longleftrightarrow> (\<forall>l \<in> set scan_order. \<not> line_wins (board g) l))
    \<and> ((\<forall>i < 3. \<forall>j < 3. cell_at (board g) i j \<in> {Empty, MarkX, MarkO})
          \<longrightarrow> check_winner g \<in> {Inr None, Inr (Some MarkX), Inr (Some MarkO)})"
proof -
  have eq: "check_winner g = Inr (first_winner (board g))"
    using assms by (rule check_winner_find)
  have "check_winner g \<noteq> Inr (Some Empty)"
    unfolding eq using first_winner_not_Empty [of "board g"] by simp
  moreover have "check_winner g = Inr None \<longleftrightarrow> (\<forall>l \<in> set scan_order. \<not> line_wins (board g) l)"
    unfolding eq using first_winner_None [of "board g"] by simp
  moreover have "(\<forall>i < 3. \<forall>j < 3. cell_at (board g) i j \<in> {Empty, MarkX, MarkO})
          \<longrightarrow> check_winner g \<in> {Inr None, Inr (Some MarkX), Inr (Some MarkO)}"
    unfolding eq using first_winner_mark [of "board g"] by auto
  ultimately show ?thesis using eq by simp
qed

theorem check_winner_scan_witness:
  "wf_board (board \<lparr>board = [[MarkO, Empty, MarkX], [MarkO, MarkX, MarkX], [MarkO, MarkO, MarkX]],
                     current_player = MarkX\<rparr>)
   \<and> check_winner \<lparr>board = [[MarkO, Empty, MarkX], [MarkO, MarkX, MarkX], [MarkO, MarkO, MarkX]],
                     current_player = MarkX\<rparr> = Inr (Some MarkO)"
proof -
  let ?g = "\<lparr>board = [[MarkO, Empty, MarkX], [MarkO, MarkX, MarkX], [MarkO, MarkO, MarkX]],
             current_player = MarkX\<rparr>"
  have h: "wf_board (board ?g)" by (simp add: wf_board_def)
  have "first_winner (board ?g) = Some MarkO"
    by code_simp
  with check_winner_scan [OF h] have "check_winner ?g = Inr (Some MarkO)" by simp
  with h show ?thesis by simp
qed

section \<open>Full board and end of game\<close>

lemma full_rows_iff: "full_rows b \<longleftrightarrow> (\<forall>r \<in> set b. Empty \<notin> set r)"
  by (induction b) auto

lemma no_empty_cells:
  assumes "wf_board b"
  shows "(\<forall>r \<in> set b. Empty \<notin> set r) \<longleftrightarrow> (\<forall>i < 3. \<forall>j < 3. cell_at b i j \<noteq> Empty)"
proof -
  have row: "Empty \<notin> set r \<longleftrightarrow> (\<forall>j < length r. r ! j \<noteq> Empty)" for r :: "cell list"
    by (auto simp: in_set_conv_nth)
  have "(\<forall>r \<in> set b. Empty \<notin> set r) \<longleftrightarrow> (\<forall>i < length b. \<forall>j < length (b ! i). b ! i ! j \<noteq> Empty)"
    by (simp only: all_set_conv_all_nth [of b] row)
  also have "\<dots> \<longleftrightarrow> (\<forall>i < 3. \<forall>j < 3. cell_at b i j \<noteq> Empty)"
    using assms by (auto simp: wf_board_def list_all_length cell_at_def)
  finally show ?thesis .
qed

text \<open>
  C4. On every 3x3 board, \<open>is_board_full\<close> is true exactly when no cell is empty, and
  \<open>is_game_over\<close> returns, without raising, true exactly when \<open>check_winner\<close> returns a
  mark or no cell is empty. Both calls hand the state back as it was.
\<close>

theorem is_game_over_iff:
  assumes "wf_board (board g)"
  shows "(is_board_full g \<longleftrightarrow> (\<forall>i < 3. \<forall>j < 3. cell_at (board g) i j \<noteq> Empty))
    \<and> is_game_over g =
        Inr ((\<exists>w. check_winner g = Inr (Some w))
             \<or> (\<forall>i < 3. \<forall>j < 3. cell_at (board g) i j \<noteq> Empty))
    \<and> call_method g IsBoardFull = Inr (RetBool (is_board_full g), g)
    \<and> (\<exists>v. is_game_over g = Inr v \<and> call_method g IsGameOver = Inr (RetBool v, g))"
proof -
  have full: "is_board_full g \<longleftrightarrow> (\<forall>i < 3. \<forall>j < 3. cell_at (board g) i j \<noteq> Empty)"
    using no_empty_cells [OF assms] by (simp add: is_board_full_def full_rows_iff)
  have w: "check_winner g = Inr (first_winner (board g))"
    using assms by (rule check_winner_find)
  have over: "is_game_over g =
        Inr ((\<exists>w. check_winner g = Inr (Some w))
             \<or> (\<forall>i < 3. \<forall>j < 3. cell_at (board g) i j \<noteq> Empty))"
    unfolding is_game_over_def w using full by auto
  then have "\<exists>v. is_game_over g = Inr v \<and> call_method g IsGameOver = Inr (RetBool v, g)"
    by simp
  with full over show ?thesis by simp
qed

theorem is_game_over_iff_witness:
  "wf_board (board \<lparr>board = [[MarkX, MarkO, MarkX], [MarkX, MarkO, MarkO], [MarkO, MarkX, MarkX]],
                     current_player = MarkO\<rparr>)
   \<and> check_winner \<lparr>board = [[MarkX, MarkO, MarkX], [MarkX, MarkO, MarkO], [MarkO, MarkX, MarkX]],
                     current_player = MarkO\<rparr> = Inr None
   \<and> is_board_full \<lparr>board = [[MarkX, MarkO, MarkX], [MarkX, MarkO, MarkO], [MarkO, MarkX, MarkX]],
                      current_player = MarkO\<rparr>
   \<and> is_game_over \<lparr>board = [[MarkX, MarkO, MarkX], [MarkX, MarkO, MarkO], [MarkO, MarkX, MarkX]],
                     current_player = MarkO\<rparr> = Inr True
   \<and> is_game_over init = Inr False"
proof -
  let ?g = "\<lparr>board = [[MarkX, MarkO, MarkX], [MarkX, MarkO, MarkO], [MarkO, MarkX, MarkX]],
             current_player = MarkO\<rparr>"
  have h: "wf_board (board ?g)" by (simp add: wf_board_def)
  have h': "wf_board (board init)" by (simp add: init_def wf_new_board)
  have w: "check_winner ?g = Inr None" by code_simp
  have w': "check_winner init = Inr None" by code_simp
  have f: "is_board_full ?g" by code_simp
  have f': "\<not> is_board_full init" by code_simp
  from is_game_over_iff [OF h] w f have o: "is_game_over ?g = Inr True" by simp
  from is_game_over_iff [OF h'] w' f' have o': "is_game_over init = Inr False" by simp
  from h w f o o' show ?thesis by simp
qed

section \<open>Sequences of calls\<close>

lemma make_move_cases:
  assumes "wf_board (board g)"
  obtains (rejected) "make_move g row col = Inr (False, g)"
      "\<not> (0 \<le> row \<and> row < 3 \<and> 0 \<le> col \<and> col < 3)
       \<or> cell_at (board g) (nat row) (nat col) \<noteq> Empty"
    | (accepted) "0 \<le> row" "row < 3" "0 \<le> col" "col < 3"
      "cell_at (board g) (nat row) (nat col) = Empty"
      "make_move g row col =
         Inr (True, g\<lparr>board := (board g)[nat row := (board g ! nat row)[nat col := current_player g]],
                      current_player := (if current_player g = MarkX then MarkO else MarkX)\<rparr>)"
proof (cases "0 \<le> row \<and> row < 3 \<and> 0 \<le> col \<and> col < 3")
  case False
  then show ?thesis using make_move_out_of_range [of row col g] rejected by blast
next
  case True
  show ?thesis
  proof (cases "cell_at (board g) (nat row) (nat col) = Empty")
    case True
    with \<open>0 \<le> row \<and> row < 3 \<and> 0 \<le> col \<and> col < 3\<close> assms show ?thesis
      using make_move_empty [of g row col] accepted by blast
  next
    case False
    with \<open>0 \<le> row \<and> row < 3 \<and> 0 \<le> col \<and> col < 3\<close> assms show ?thesis
      using make_move_occupied [of g row col] rejected by blast
  qed
qed

lemma make_move_wf:
  assumes "wf_board (board g)"
  shows "\<exists>ok g'. make_move g row col = Inr (ok, g') \<and> wf_board (board g')"
  using assms
proof (cases rule: make_move_cases [where g = g and row = row and col = col])
  case rejected
  with assms show ?thesis by blast
next
  case accepted
  have "nat row < 3" using accepted by simp
  with assms have "wf_board ((board g)[nat row := (board g ! nat row)[nat col := current_player g]])"
    by (rule wf_board_update)
  with accepted(6) show ?thesis by auto
qed

lemma call_method_wf:
  assumes "wf_board (board g)"
  shows "\<exists>r g'. call_method g c = Inr (r, g') \<and> wf_board (board g')"
proof (cases c)
  case (MakeMove row col)
  with make_move_wf [OF assms, of row col] show ?thesis by auto
next
  case CheckWinner
  with check_winner_find [OF assms] assms show ?thesis by simp
next
  case IsBoardFull
  with assms show ?thesis by simp
next
  case IsGameOver
  with check_winner_find [OF assms] assms show ?thesis by (simp add: is_game_over_def)
next
  case GetBoard
  with assms show ?thesis by simp
next
  case Reset
  then show ?thesis by (simp add: reset_def wf_new_board)
qed

lemma run_wf:
  assumes "wf_board (board g)"
  shows "\<exists>g'. run g cs = Inr g' \<and> wf_board (board g')"
  using assms
proof (induction cs arbitrary: g)
  case Nil
  then show ?case by simp
next
  case (Cons c cs)
  from call_method_wf [OF Cons.prems, of c] obtain r g1
    where s: "call_method g c = Inr (r, g1)" "wf_board (board g1)" by blast
  from Cons.IH [OF s(2)] s(1) show ?case by simp
qed

lemma wf_init: "wf_board (board init)"
  by (simp add: init_def wf_new_board)

lemma reset_init: "reset g = init"
  by (simp add: reset_def init_def)

section \<open>Construction and reset\<close>

text \<open>
  C6. A fresh game has nine empty cells and \<open>'X'\<close> to move. Every sequence of
  \<open>make_move\<close> calls from it runs without raising, and \<open>reset\<close> in the state it reaches
  gives a state equal to the fresh one; the call returns nothing and cannot fail.
\<close>

theorem reset_restores_init:
  "board init = [[Empty, Empty, Empty], [Empty, Empty, Empty], [Empty, Empty, Empty]]
   \<and> current_player init = MarkX
   \<and> (\<exists>g. run init (moves ms) = Inr g \<and> reset g = init
           \<and> call_method g Reset = Inr (RetNone, init))"
proof -
  from run_wf [OF wf_init, of "moves ms"] obtain g where "run init (moves ms) = Inr g"
    by blast
  then have "\<exists>g. run init (moves ms) = Inr g \<and> reset g = init
                \<and> call_method g Reset = Inr (RetNone, init)"
    by (simp add: reset_init)
  then show ?thesis by (simp add: init_def new_board_cells)
qed

section \<open>Marks stay where they are\<close>

lemma make_move_keeps_marks:
  assumes "wf_board (board g)" "make_move g row col = Inr (ok, g')"
    and "i < 3" "j < 3" "cell_at (board g) i j \<noteq> Empty"
  shows "cell_at (board g') i j = cell_at (board g) i j"
  using assms(1)
proof (cases rule: make_move_cases [where g = g and row = row and col = col])
  case rejected
  with assms(2) show ?thesis by simp
next
  case accepted
  have n: "nat row < 3" "nat col < 3" using accepted by simp_all
  from accepted(5) assms(5) have "\<not> (i = nat row \<and> j = nat col)" by auto
  moreover from accepted(6) assms(2)
  have "board g' = (board g)[nat row := (board g ! nat row)[nat col := current_player g]]"
    by auto
  ultimately show ?thesis
    using cell_at_update [OF assms(1) n assms(3,4), of "current_player g"] by auto
qed

lemma query_keeps_state:
  assumes "call_method g c = Inr (r, g')" "c \<in> {CheckWinner, IsBoardFull, IsGameOver, GetBoard}"
  shows "g' = g"
  using assms by (auto split: sum.splits)

lemma new_board_empty: "i < 3 \<Longrightarrow> j < 3 \<Longrightarrow> cell_at new_board i j = Empty"
  by (auto simp: new_board_cells cell_at_def nth_Cons' dest!: nat_index_cases)

text \<open>
  C8. On every 3x3 board each call returns without raising. After any call other than
  \<open>reset\<close>, \<open>make_move\<close> included whether it succeeds or not, every cell that was not
  empty holds what it held before. After \<open>reset\<close> all nine cells are empty.
\<close>

theorem marks_persist:
  assumes "wf_board (board g)"
  shows "\<exists>r g'. call_method g c = Inr (r, g')
    \<and> (c \<noteq> Reset \<longrightarrow>
          (\<forall>i < 3. \<forall>j < 3. cell_at (board g) i j \<noteq> Empty
              \<longrightarrow> cell_at (board g') i j = cell_at (board g) i j))
    \<and> (c = Reset \<longrightarrow> (\<forall>i < 3. \<forall>j < 3. cell_at (board g') i j = Empty))"
proof -
  from call_method_wf [OF assms, of c] obtain r g'
    where s: "call_method g c = Inr (r, g')" by blast
  have keep: "cell_at (board g') i j = cell_at (board g) i j"
    if "c \<noteq> Reset" "i < 3" "j < 3" "cell_at (board g) i j \<noteq> Empty" for i j
  proof (cases c)
    case (MakeMove row col)
    with s obtain ok where "make_move g row col = Inr (ok, g')"
      by (auto split: sum.splits)
    from make_move_keeps_marks [OF assms this that(2,3,4)] show ?thesis .
  next
    case Reset
    with that show ?thesis by simp
  qed (use s query_keeps_state [OF s] in simp_all)
  have clear: "cell_at (board g') i j = Empty" if "c = Reset" "i < 3" "j < 3" for i j
    using s that by (auto simp: reset_def new_board_empty)
  from s keep clear show ?thesis by blast
qed

theorem marks_persist_witness:
  "wf_board (board \<lparr>board = [[MarkX, Empty, Empty], [Empty, MarkO, Empty], [Empty, Empty, Empty]],
                     current_player = MarkX\<rparr>)
   \<and> call_method \<lparr>board = [[MarkX, Empty, Empty], [Empty, MarkO, Empty], [Empty, Empty, Empty]],
                    current_player = MarkX\<rparr> (MakeMove 0 1)
       = Inr (RetBool True,
              \<lparr>board = [[MarkX, MarkX, Empty], [Empty, MarkO, Empty], [Empty, Empty, Empty]],
               current_player = MarkO\<rparr>)
   \<and> (\<exists>r g'. call_method \<lparr>board = [[MarkX, Empty, Empty], [Empty, MarkO, Empty],
                                     [Empty, Empty, Empty]],
                             current_player = MarkX\<rparr> (MakeMove 1 1) = Inr (r, g')
          \<and> cell_at (board g') 1 1 = MarkO \<and> cell_at (board g') 0 0 = MarkX)"
proof -
  let ?g = "\<lparr>board = [[MarkX, Empty, Empty], [Empty, MarkO, Empty], [Empty, Empty, Empty]],
             current_player = MarkX\<rparr>"
  have h: "wf_board (board ?g)" by (simp add: wf_board_def)
  have c: "call_method ?g (MakeMove 0 1)
       = Inr (RetBool True,
              \<lparr>board = [[MarkX, MarkX, Empty], [Empty, MarkO, Empty], [Empty, Empty, Empty]],
               current_player = MarkO\<rparr>)"
    by code_simp
  from marks_persist [OF h, of "MakeMove 1 1"] obtain r g'
    where s: "call_method ?g (MakeMove 1 1) = Inr (r, g')"
      "\<forall>i < 3. \<forall>j < 3. cell_at (board ?g) i j \<noteq> Empty
              \<longrightarrow> cell_at (board g') i j = cell_at (board ?g) i j"
    by auto
  from s(2) have "cell_at (board g') 1 1 = cell_at (board ?g) 1 1"
    by (simp add: cell_at_def)
  moreover from s(2) have "cell_at (board g') 0 0 = cell_at (board ?g) 0 0"
    by (simp add: cell_at_def)
  ultimately have "cell_at (board g') 1 1 = MarkO \<and> cell_at (board g') 0 0 = MarkX"
    by (simp add: cell_at_def)
  with h c s(1) show ?thesis by blast
qed

section \<open>Turn alternation\<close>

lemma other_mark_twice: "m \<in> {MarkX, MarkO} \<Longrightarrow> other_mark (other_mark m) = m"
  by (auto simp: other_mark_def)

lemma other_mark_valid: "other_mark m \<in> {MarkX, MarkO}"
  by (simp add: other_mark_def)

lemma movers_alternate:
  assumes "wf_board (board g)" "current_player g \<in> {MarkX, MarkO}"
  shows "\<exists>ps. movers g ms = Inr ps
    \<and> (\<forall>k < length ps. ps ! k = (if even k then current_player g else other_mark (current_player g)))"
  using assms
proof (induction ms arbitrary: g)
  case Nil
  then show ?case by simp
next
  case (Cons m ms)
  obtain row col where m: "m = (row, col)" by (cases m)
  from Cons.prems(1) show ?case
  proof (cases rule: make_move_cases [where g = g and row = row and col = col])
    case rejected
    from Cons.IH [OF Cons.prems] rejected(1) m show ?thesis by auto
  next
    case accepted
    let ?g' = "g\<lparr>board := (board g)[nat row := (board g ! nat row)[nat col := current_player g]],
                 current_player := (if current_player g = MarkX then MarkO else MarkX)\<rparr>"
    have n: "nat row < 3" using accepted by simp
    have wf: "wf_board (board ?g')"
      using wf_board_update [OF Cons.prems(1) n] by simp
    have cp: "current_player ?g' = other_mark (current_player g)"
      by (simp add: other_mark_def)
    then have v: "current_player ?g' \<in> {MarkX, MarkO}"
      using other_mark_valid by simp
    from Cons.IH [OF wf v] obtain ps where ps: "movers ?g' ms = Inr ps"
      "\<forall>k < length ps. ps ! k = (if even k then current_player ?g'
                                    else other_mark (current_player ?g'))"
      by blast
    have mv: "movers g (m # ms) = Inr (current_player g # ps)"
      using accepted(6) ps(1) m by simp
    have "(current_player g # ps) ! k
            = (if even k then current_player g else other_mark (current_player g))"
      if "k < length (current_player g # ps)" for k
    proof (cases k)
      case 0
      then show ?thesis by simp
    next
      case (Suc k')
      with that have "k' < length ps" by simp
      with ps(2) have "ps ! k' = (if even k' then current_player ?g'
                                  else other_mark (current_player ?g'))" by blast
      with Suc cp other_mark_twice [OF Cons.prems(2)] show ?thesis by simp
    qed
    with mv show ?thesis by blast
  qed
qed

lemma make_move_player:
  assumes "wf_board (board g)" "make_move g row col = Inr (ok, g')"
  shows "current_player g' = (if ok then other_mark (current_player g) else current_player g)"
  using assms(1)
proof (cases rule: make_move_cases [where g = g and row = row and col = col])
  case rejected
  with assms(2) show ?thesis by auto
next
  case accepted
  with assms(2) show ?thesis by (auto simp: other_mark_def)
qed

text \<open>
  C7. For every sequence of \<open>make_move\<close> calls from the initial state, no call raises,
  and the k-th accepted move, counting from 1, is made by \<open>'X'\<close> for odd k and by \<open>'O'\<close>
  for even k. On a 3x3 board a rejected move leaves \<open>current_player\<close> as it was, an
  accepted one changes it, and the four queries return the state unchanged.
\<close>

theorem players_alternate:
  "(\<exists>ps. movers init ms = Inr ps
       \<and> (\<forall>k. 1 \<le> k \<and> k \<le> length ps
              \<longrightarrow> ps ! (k - 1) = (if odd k then MarkX else MarkO)))
   \<and> (\<forall>g row col ok g'. wf_board (board g) \<and> make_move g row col = Inr (ok, g')
         \<longrightarrow> (current_player g' \<noteq> current_player g \<longleftrightarrow> ok))
   \<and> (\<forall>g c r g'. c \<in> {CheckWinner, IsBoardFull, IsGameOver, GetBoard}
         \<and> call_method g c = Inr (r, g') \<longrightarrow> g' = g)"
proof -
  have cp: "current_player init \<in> {MarkX, MarkO}" by (simp add: init_def)
  from movers_alternate [OF wf_init cp, of ms] obtain ps where ps: "movers init ms = Inr ps"
    "\<forall>k < length ps. ps ! k = (if even k then current_player init
                                 else other_mark (current_player init))"
    by blast
  have "ps ! (k - 1) = (if odd k then MarkX else MarkO)" if "1 \<le> k \<and> k \<le> length ps" for k
  proof -
    from that have "k - 1 < length ps" by arith
    with ps(2) have "ps ! (k - 1) = (if even (k - 1) then current_player init
                                      else other_mark (current_player init))" by blast
    moreover from that have "even (k - 1) \<longleftrightarrow> odd k" by (cases k) simp_all
    ultimately show ?thesis by (simp add: init_def other_mark_def)
  qed
  with ps(1) have a: "\<exists>ps. movers init ms = Inr ps
       \<and> (\<forall>k. 1 \<le> k \<and> k \<le> length ps
              \<longrightarrow> ps ! (k - 1) = (if odd k then MarkX else MarkO))" by blast
  have b: "\<forall>g row col ok g'. wf_board (board g) \<and> make_move g row col = Inr (ok, g')
         \<longrightarrow> (current_player g' \<noteq> current_player g \<longleftrightarrow> ok)"
    using make_move_player by (auto simp: other_mark_def split: if_splits)
  have c: "\<forall>g c r g'. c \<in> {CheckWinner, IsBoardFull, IsGameOver, GetBoard}
         \<and> call_method g c = Inr (r, g') \<longrightarrow> g' = g"
    using query_keeps_state by blast
  from a b c show ?thesis by blast
qed

theorem players_alternate_witness:
  "movers init [(0, 0), (0, 0), (1, 1), (5, 5), (2, 2)] = Inr [MarkX, MarkO, MarkX]
   \<and> (1::nat) \<le> 3 \<and> (3::nat) \<le> length [MarkX, MarkO, MarkX]
   \<and> [MarkX, MarkO, MarkX] ! (3 - 1) = MarkX
   \<and> wf_board (board init) \<and> make_move init 0 3 = Inr (False, init)
   \<and> call_method init IsBoardFull = Inr (RetBool False, init)"
proof -
  let ?ms = "[(0, 0), (0, 0), (1, 1), (5, 5), (2, 2)] :: (int \<times> int) list"
  have m: "movers init ?ms = Inr [MarkX, MarkO, MarkX]" by code_simp
  have mv: "make_move init 0 3 = Inr (False, init)" by code_simp
  have q: "call_method init IsBoardFull = Inr (RetBool False, init)" by code_simp
  from players_alternate [of ?ms] m
  have "\<forall>k. 1 \<le> k \<and> k \<le> length [MarkX, MarkO, MarkX]
          \<longrightarrow> [MarkX, MarkO, MarkX] ! (k - 1) = (if odd k then MarkX else MarkO)"
    by simp
  then have "(1::nat) \<le> 3 \<and> (3::nat) \<le> length [MarkX, MarkO, MarkX]
      \<longrightarrow> [MarkX, MarkO, MarkX] ! (3 - 1) = (if odd (3::nat) then MarkX else MarkO)"
    by blast
  then have "[MarkX, MarkO, MarkX] ! (3 - 1) = MarkX" by simp
  with m mv q wf_init show ?thesis by simp
qed

section \<open>Moves after the end of the game\<close>

text \<open>
  C9. \<open>make_move\<close> has no test of the end of the game. After the five moves
  (0,0), (1,0), (0,1), (1,1), (0,2) from the initial state \<open>'X'\<close> has won; a further move
  to the empty cell (2,2) returns true, writes \<open>'O'\<close> there and hands the turn to \<open>'X'\<close>.
  On every 3x3 board on which \<open>is_game_over\<close> is true, a move to an empty cell within
  0..2 is accepted.
\<close>

theorem no_terminal_guard:
  "run init (moves [(0, 0), (1, 0), (0, 1), (1, 1), (0, 2)])
     = Inr \<lparr>board = [[MarkX, MarkX, MarkX], [MarkO, MarkO, Empty], [Empty, Empty, Empty]],
            current_player = MarkO\<rparr>
   \<and> check_winner \<lparr>board = [[MarkX, MarkX, MarkX], [MarkO, MarkO, Empty], [Empty, Empty, Empty]],
                     current_player = MarkO\<rparr> = Inr (Some MarkX)
   \<and> is_game_over \<lparr>board = [[MarkX, MarkX, MarkX], [MarkO, MarkO, Empty], [Empty, Empty, Empty]],
                     current_player = MarkO\<rparr> = Inr True
   \<and> make_move \<lparr>board = [[MarkX, MarkX, MarkX], [MarkO, MarkO, Empty], [Empty, Empty, Empty]],
                  current_player = MarkO\<rparr> 2 2
       = Inr (True, \<lparr>board = [[MarkX, MarkX, MarkX], [MarkO, MarkO, Empty], [Empty, Empty, MarkO]],
                     current_player = MarkX\<rparr>)
   \<and> (wf_board (board g) \<and> is_game_over g = Inr True
        \<and> 0 \<le> row \<and> row < 3 \<and> 0 \<le> col \<and> col < 3
        \<and> cell_at (board g) (nat row) (nat col) = Empty
        \<longrightarrow> (\<exists>g'. make_move g row col = Inr (True, g') \<and> g' \<noteq> g))"
proof -
  let ?g = "\<lparr>board = [[MarkX, MarkX, MarkX], [MarkO, MarkO, Empty], [Empty, Empty, Empty]],
             current_player = MarkO\<rparr>"
  have a: "run init (moves [(0, 0), (1, 0), (0, 1), (1, 1), (0, 2)]) = Inr ?g" by code_simp
  have b: "check_winner ?g = Inr (Some MarkX)" by code_simp
  have c: "is_game_over ?g = Inr True" by code_simp
  have d: "make_move ?g 2 2
       = Inr (True, \<lparr>board = [[MarkX, MarkX, MarkX], [MarkO, MarkO, Empty], [Empty, Empty, MarkO]],
                     current_player = MarkX\<rparr>)" by code_simp
  have e: "\<exists>g'. make_move g row col = Inr (True, g') \<and> g' \<noteq> g"
    if h: "wf_board (board g)" "0 \<le> row" "row < 3" "0 \<le> col" "col < 3"
      "cell_at (board g) (nat row) (nat col) = Empty"
  proof -
    let ?g' = "g\<lparr>board := (board g)[nat row := (board g ! nat row)[nat col := current_player g]],
                 current_player := (if current_player g = MarkX then MarkO else MarkX)\<rparr>"
    have "make_move g row col = Inr (True, ?g')" using h by (rule make_move_empty)
    moreover have "current_player ?g' \<noteq> current_player g" by auto
    then have "?g' \<noteq> g" by metis
    ultimately show ?thesis by blast
  qed
  from a b c d e show ?thesis by blast
qed

theorem no_terminal_guard_witness:
  "wf_board (board \<lparr>board = [[MarkX, MarkO, MarkX], [MarkO, MarkX, MarkO], [MarkX, Empty, Empty]],
                     current_player = MarkO\<rparr>)
   \<and> is_game_over \<lparr>board = [[MarkX, MarkO, MarkX], [MarkO, MarkX, MarkO], [MarkX, Empty, Empty]],
                     current_player = MarkO\<rparr> = Inr True
   \<and> (0::int) \<le> 2 \<and> (2::int) < 3 \<and> (0::int) \<le> 1 \<and> (1::int) < 3
   \<and> cell_at [[MarkX, MarkO, MarkX], [MarkO, MarkX, MarkO], [MarkX, Empty, Empty]] (nat 2) (nat 1)
       = Empty
   \<and> (\<exists>g'. make_move \<lparr>board = [[MarkX, MarkO, MarkX], [MarkO, MarkX, MarkO],
                                 [MarkX, Empty, Empty]],
                         current_player = MarkO\<rparr> 2 1 = Inr (True, g'))"
proof -
  let ?g = "\<lparr>board = [[MarkX, MarkO, MarkX], [MarkO, MarkX, MarkO], [MarkX, Empty, Empty]],
             current_player = MarkO\<rparr>"
  have h1: "wf_board (board ?g)" by (simp add: wf_board_def)
  have h2: "is_game_over ?g = Inr True" by code_simp
  have h3: "cell_at (board ?g) (nat 2) (nat 1) = Empty" by (simp add: cell_at_def)
  from no_terminal_guard [of ?g 2 1] h1 h2 h3
  have "\<exists>g'. make_move ?g 2 1 = Inr (True, g')" by auto
  with h1 h2 h3 show ?thesis by simp
qed

section \<open>Parity of the marks\<close>

lemma count_list_update:
  "j < length xs \<Longrightarrow> xs ! j \<noteq> m \<Longrightarrow>
   count_list (xs[j := v]) m = count_list xs m + (if v = m then 1 else 0)"
proof (induction xs arbitrary: j)
  case Nil
  then show ?case by simp
next
  case (Cons x xs)
  then show ?case by (cases j) auto
qed

lemma count_mark_update:
  "i < length b \<Longrightarrow> j < length (b ! i) \<Longrightarrow> b ! i ! j \<noteq> m \<Longrightarrow>
   count_mark m (b[i := (b ! i)[j := v]]) = count_mark m b + (if v = m then 1 else 0)"
proof (induction b arbitrary: i)
  case Nil
  then show ?case by simp
next
  case (Cons r b)
  show ?case
  proof (cases i)
    case 0
    with Cons.prems show ?thesis by (simp add: count_mark_def count_list_update)
  next
    case (Suc i')
    with Cons.prems have "count_mark m (b[i' := (b ! i')[j := v]])
        = count_mark m b + (if v = m then 1 else 0)"
      by (intro Cons.IH) simp_all
    with Suc show ?thesis by (simp add: count_mark_def)
  qed
qed

lemma count_mark_new_board: "count_mark m new_board = (if m = Empty then 9 else 0)"
  by (simp add: count_mark_def new_board_cells)

lemma parity_init: "parity_inv init"
  by (simp add: parity_inv_def init_def count_mark_new_board)

lemma make_move_parity:
  assumes "wf_board (board g)" "parity_inv g" "make_move g row col = Inr (ok, g')"
  shows "parity_inv g'"
  using assms(1)
proof (cases rule: make_move_cases [where g = g and row = row and col = col])
  case rejected
  with assms(2,3) show ?thesis by simp
next
  case accepted
  let ?b' = "(board g)[nat row := (board g ! nat row)[nat col := current_player g]]"
  have i: "nat row < length (board g)" using accepted assms(1) by (simp add: wf_board_def)
  have "length (board g ! nat row) = 3"
    using assms(1) accepted by (intro wf_board_row) simp_all
  then have j: "nat col < length (board g ! nat row)" using accepted by simp
  have e: "board g ! nat row ! nat col = Empty" using accepted(5) by (simp add: cell_at_def)
  have cx: "count_mark MarkX ?b'
      = count_mark MarkX (board g) + (if current_player g = MarkX then 1 else 0)"
    using i j e by (intro count_mark_update) simp_all
  have co: "count_mark MarkO ?b'
      = count_mark MarkO (board g) + (if current_player g = MarkO then 1 else 0)"
    using i j e by (intro count_mark_update) simp_all
  from accepted(6) assms(3)
  have g': "board g' = ?b'"
    "current_player g' = (if current_player g = MarkX then MarkO else MarkX)"
    by auto
  from assms(2) show ?thesis
    unfolding parity_inv_def g' cx co by auto
qed

lemma call_method_parity:
  assumes "wf_board (board g)" "parity_inv g" "call_method g c = Inr (r, g')"
  shows "parity_inv g'"
proof (cases c)
  case (MakeMove row col)
  with assms(3) obtain ok where "make_move g row col = Inr (ok, g')"
    by (auto split: sum.splits)
  with assms(1,2) show ?thesis by (rule make_move_parity)
next
  case Reset
  with assms(3) show ?thesis by (auto simp: reset_init parity_init)
qed (use assms query_keeps_state [OF assms(3)] in simp_all)

lemma run_parity:
  assumes "wf_board (board g)" "parity_inv g"
  shows "\<exists>g'. run g cs = Inr g' \<and> wf_board (board g') \<and> parity_inv g'"
  using assms
proof (induction cs arbitrary: g)
  case Nil
  then show ?case by simp
next
  case (Cons c cs)
  from call_method_wf [OF Cons.prems(1), of c] obtain r g1
    where s: "call_method g c = Inr (r, g1)" "wf_board (board g1)" by blast
  from Cons.prems s(1) have "parity_inv g1" by (rule call_method_parity)
  from Cons.IH [OF s(2) this] s(1) show ?case by simp
qed

text \<open>
  C10. Every sequence of calls from the initial state, \<open>make_move\<close> and \<open>reset\<close> among
  them, runs without raising, and in the state it reaches \<open>current_player\<close> is \<open>'X'\<close> or
  \<open>'O'\<close>; the board holds as many \<open>'X'\<close> as \<open>'O'\<close> when \<open>'X'\<close> is to move, and one more
  \<open>'X'\<close> than \<open>'O'\<close> when \<open>'O'\<close> is to move.
\<close>

theorem mark_parity:
  "\<exists>g. run init cs = Inr g
     \<and> (current_player g = MarkX \<or> current_player g = MarkO)
     \<and> (current_player g = MarkX
          \<longrightarrow> count_mark MarkX (board g) = count_mark MarkO (board g))
     \<and> (current_player g = MarkO
          \<longrightarrow> count_mark MarkX (board g) = count_mark MarkO (board g) + 1)"
proof -
  from run_parity [OF wf_init parity_init, of cs] obtain g
    where g: "run init cs = Inr g" "parity_inv g" by blast
  from g(2) have "(current_player g = MarkX \<or> current_player g = MarkO)
     \<and> (current_player g = MarkX
          \<longrightarrow> count_mark MarkX (board g) = count_mark MarkO (board g))
     \<and> (current_player g = MarkO
          \<longrightarrow> count_mark MarkX (board g) = count_mark MarkO (board g) + 1)"
    by (auto simp: parity_inv_def)
  with g(1) show ?thesis by blast
qed

theorem mark_parity_witness:
  "run init [MakeMove 1 1, MakeMove 1 1, Reset, MakeMove 0 0, MakeMove 2 2, IsGameOver,
             MakeMove 0 2]
     = Inr \<lparr>board = [[MarkX, Empty, MarkX], [Empty, Empty, Empty], [Empty, Empty, MarkO]],
            current_player = MarkO\<rparr>
   \<and> count_mark MarkX [[MarkX, Empty, MarkX], [Empty, Empty, Empty], [Empty, Empty, MarkO]]
       = count_mark MarkO [[MarkX, Empty, MarkX], [Empty, Empty, Empty], [Empty, Empty, MarkO]] + 1"
proof -
  let ?cs = "[MakeMove 1 1, MakeMove 1 1, Reset, MakeMove 0 0, MakeMove 2 2, IsGameOver,
              MakeMove 0 2]"
  let ?g = "\<lparr>board = [[MarkX, Empty, MarkX], [Empty, Empty, Empty], [Empty, Empty, MarkO]],
             current_player = MarkO\<rparr>"
  have r: "run init ?cs = Inr ?g" by code_simp
  from mark_parity [of ?cs] r
  have "current_player ?g = MarkO
          \<longrightarrow> count_mark MarkX (board ?g) = count_mark MarkO (board ?g) + 1"
    by simp
  then have "count_mark MarkX (board ?g) = count_mark MarkO (board ?g) + 1" by simp
  with r show ?thesis by simp
qed

section \<open>Snapshots of the board\<close>

lemma cells_of_append: "cells_of h a = Inr cs \<Longrightarrow> cells_of (h @ xs) a = Inr cs"
  by (auto simp: cells_of_def nth_append split: if_splits)

lemma rows_of_append: "rows_of h p = Inr as \<Longrightarrow> rows_of (h @ xs) p = Inr as"
  by (auto simp: rows_of_def nth_append split: if_splits)

lemma views_Cons:
  "views h (a # as) = Inr b \<longleftrightarrow>
     (\<exists>cs b'. b = cs # b' \<and> cells_of h a = Inr cs \<and> views h as = Inr b')"
  by (auto split: sum.splits)

lemma views_iff: "views h as = Inr b \<longleftrightarrow> list_all2 (\<lambda>a cs. cells_of h a = Inr cs) as b"
proof (induction as arbitrary: b)
  case Nil
  then show ?case by auto
next
  case (Cons a as)
  show ?case
    unfolding views_Cons list_all2_Cons1 Cons.IH by blast
qed

lemma views_append: "views h as = Inr b \<Longrightarrow> views (h @ xs) as = Inr b"
  unfolding views_iff by (erule list_all2_mono) (rule cells_of_append)

lemma view_append:
  assumes "view h p = Inr b"
  shows "view (h @ xs) p = Inr b"
proof -
  from assms obtain as where as: "rows_of h p = Inr as" "views h as = Inr b"
    by (auto simp: view_def split: sum.splits)
  from rows_of_append [OF as(1)] views_append [OF as(2)] show ?thesis
    by (simp add: view_def)
qed

lemma copy_rows_eq:
  "views h as = Inr b \<Longrightarrow>
   copy_rows h as = Inr (h @ map Cells b, [length h..<length h + length b])"
proof (induction as arbitrary: h b)
  case Nil
  then show ?case by simp
next
  case (Cons a as)
  from Cons.prems obtain cs b' where b: "cells_of h a = Inr cs" "views h as = Inr b'"
    "b = cs # b'"
    unfolding views_Cons by blast
  from views_append [OF b(2)] have "views (h @ [Cells cs]) as = Inr b'" .
  from Cons.IH [OF this]
  have c: "copy_rows (h @ [Cells cs]) as
          = Inr ((h @ [Cells cs]) @ map Cells b',
                 [length (h @ [Cells cs])..<length (h @ [Cells cs]) + length b'])" .
  have u: "[length h..<length h + length b] = length h # [Suc (length h)..<length h + length b]"
    unfolding b(3) by (rule upt_conv_Cons) simp
  have "copy_rows h (a # as)
          = Inr ((h @ [Cells cs]) @ map Cells b',
                 length h # [length (h @ [Cells cs])..<length (h @ [Cells cs]) + length b'])"
    by (simp only: copy_rows.simps b(1) alloc_def c sum.case prod.case)
  also have "(h @ [Cells cs]) @ map Cells b' = h @ map Cells b"
    unfolding b(3) by simp
  also have "length h # [length (h @ [Cells cs])..<length (h @ [Cells cs]) + length b']
               = [length h..<length h + length b]"
    unfolding u unfolding b(3) by simp
  finally show ?case .
qed

lemma views_fresh:
  "views (h @ map Cells b @ ys) [length h..<length h + length b] = Inr b"
  unfolding views_iff
  by (auto simp: list_all2_conv_all_nth cells_of_def nth_append)

lemma store_get_board_eq:
  assumes "view h p = Inr b"
  shows "store_get_board h p =
           Inr (h @ map Cells b @ [Rows [length h..<length h + length b]],
                length h + length b)"
proof -
  from assms obtain as where as: "rows_of h p = Inr as" "views h as = Inr b"
    by (auto simp: view_def split: sum.splits)
  from as(1) copy_rows_eq [OF as(2)] show ?thesis
    by (simp add: store_get_board_def alloc_def)
qed

lemma view_snapshot:
  "view (h @ map Cells b @ [Rows [length h..<length h + length b]]) (length h + length b)
     = Inr b"
proof -
  have "rows_of (h @ map Cells b @ [Rows [length h..<length h + length b]]) (length h + length b)
          = Inr [length h..<length h + length b]"
    by (simp add: rows_of_def nth_append)
  with views_fresh [of h b] show ?thesis by (simp add: view_def)
qed

lemma py_getitem_mem: "py_getitem xs i = Inr x \<Longrightarrow> x \<in> set xs"
  by (auto simp: py_getitem_def py_index_def split: if_splits)

lemma assign_snapshot_frame:
  assumes "store_assign_cell (h @ map Cells b @ [Rows [length h..<length h + length b]])
             (length h + length b) i j v = Inr h2"
  shows "\<exists>xs. h2 = h @ xs"
proof -
  let ?H = "h @ map Cells b @ [Rows [length h..<length h + length b]]"
  have r: "rows_of ?H (length h + length b) = Inr [length h..<length h + length b]"
    by (simp add: rows_of_def nth_append)
  from assms r obtain a cs' where a: "py_getitem [length h..<length h + length b] i = Inr a"
    "h2 = ?H[a := Cells cs']"
    by (auto simp: store_assign_cell_def split: sum.splits)
  from py_getitem_mem [OF a(1)] have "length h \<le> a" by simp
  with a(2) have "h2 = h @ (map Cells b @ [Rows [length h..<length h + length b]])
                            [a - length h := Cells cs']"
    by (simp add: list_update_append)
  then show ?thesis by blast
qed

lemma get_board_value: "get_board g = board g"
  by (simp add: get_board_def)

text \<open>
  C5. When the attribute \<open>board\<close> of a game refers to a grid in the store, \<open>get_board\<close>
  returns without raising a reference to a grid equal to it cell for cell, and leaves
  the board as it was. The list returned and each of its rows are objects allocated by
  the call, so whatever is done to them afterwards the board stays as it was; in
  particular no assignment \<open>q[i][j] = v\<close> through the returned reference changes the
  board, and a later \<open>get_board\<close> returns the original grid again.
\<close>

theorem get_board_independent:
  assumes "view h p = Inr (board g)"
  shows "\<exists>h1 q. store_get_board h p = Inr (h1, q)
    \<and> view h1 q = Inr (get_board g) \<and> get_board g = board g
    \<and> view h1 p = Inr (board g)
    \<and> take (length h) h1 = h \<and> length h \<le> q
    \<and> (\<exists>as. rows_of h1 q = Inr as \<and> (\<forall>a \<in> set as. length h \<le> a))
    \<and> (\<forall>h2. take (length h) h2 = h \<longrightarrow> view h2 p = Inr (board g))
    \<and> (\<forall>i j v h2. store_assign_cell h1 q i j v = Inr h2
          \<longrightarrow> view h2 p = Inr (board g)
              \<and> (\<exists>h3 q'. store_get_board h2 p = Inr (h3, q') \<and> view h3 q' = Inr (board g)))"
proof -
  let ?b = "board g"
  let ?h1 = "h @ map Cells ?b @ [Rows [length h..<length h + length ?b]]"
  let ?q = "length h + length ?b"
  have call: "store_get_board h p = Inr (?h1, ?q)"
    using assms by (rule store_get_board_eq)
  have copy: "view ?h1 ?q = Inr (get_board g)"
    by (simp only: view_snapshot get_board_value)
  have kept: "view ?h1 p = Inr ?b"
    using assms by (rule view_append)
  have new: "\<exists>as. rows_of ?h1 ?q = Inr as \<and> (\<forall>a \<in> set as. length h \<le> a)"
    by (simp add: rows_of_def nth_append)
  have frame: "view h2 p = Inr ?b" if "take (length h) h2 = h" for h2
  proof -
    from that have "h2 = h @ drop (length h) h2"
      using append_take_drop_id [of "length h" h2] by simp
    with view_append [OF assms, of "drop (length h) h2"] show ?thesis by simp
  qed
  have later: "view h2 p = Inr ?b
      \<and> (\<exists>h3 q'. store_get_board h2 p = Inr (h3, q') \<and> view h3 q' = Inr ?b)"
    if "store_assign_cell ?h1 ?q i j v = Inr h2" for i j v h2
  proof -
    from assign_snapshot_frame [OF that] obtain xs where "h2 = h @ xs" by blast
    with view_append [OF assms, of xs] have v: "view h2 p = Inr ?b" by simp
    from store_get_board_eq [OF v] view_snapshot [of h2 ?b] v show ?thesis by simp
  qed
  have "store_get_board h p = Inr (?h1, ?q)
    \<and> view ?h1 ?q = Inr (get_board g) \<and> get_board g = board g
    \<and> view ?h1 p = Inr (board g)
    \<and> take (length h) ?h1 = h \<and> length h \<le> ?q
    \<and> (\<exists>as. rows_of ?h1 ?q = Inr as \<and> (\<forall>a \<in> set as. length h \<le> a))
    \<and> (\<forall>h2. take (length h) h2 = h \<longrightarrow> view h2 p = Inr (board g))
    \<and> (\<forall>i j v h2. store_assign_cell ?h1 ?q i j v = Inr h2
          \<longrightarrow> view h2 p = Inr (board g)
              \<and> (\<exists>h3 q'. store_get_board h2 p = Inr (h3, q') \<and> view h3 q' = Inr (board g)))"
    using call copy kept new frame later by (simp add: get_board_value)
  then show ?thesis by blast
qed

theorem get_board_independent_witness:
  "view [Cells [MarkX, Empty, Empty], Cells [Empty, MarkO, Empty], Cells [Empty, Empty, Empty],
         Rows [0, 1, 2]] 3
     = Inr (board \<lparr>board = [[MarkX, Empty, Empty], [Empty, MarkO, Empty], [Empty, Empty, Empty]],
                   current_player = MarkX\<rparr>)
   \<and> store_get_board [Cells [MarkX, Empty, Empty], Cells [Empty, MarkO, Empty],
                       Cells [Empty, Empty, Empty], Rows [0, 1, 2]] 3
     = Inr ([Cells [MarkX, Empty, Empty], Cells [Empty, MarkO, Empty], Cells [Empty, Empty, Empty],
             Rows [0, 1, 2],
             Cells [MarkX, Empty, Empty], Cells [Empty, MarkO, Empty], Cells [Empty, Empty, Empty],
             Rows [4, 5, 6]], 7)
   \<and> store_assign_cell
        [Cells [MarkX, Empty, Empty], Cells [Empty, MarkO, Empty], Cells [Empty, Empty, Empty],
         Rows [0, 1, 2],
         Cells [MarkX, Empty, Empty], Cells [Empty, MarkO, Empty], Cells [Empty, Empty, Empty],
         Rows [4, 5, 6]] 7 2 0 MarkX
     = Inr [Cells [MarkX, Empty, Empty], Cells [Empty, MarkO, Empty], Cells [Empty, Empty, Empty],
            Rows [0, 1, 2],
            Cells [MarkX, Empty, Empty], Cells [Empty, MarkO, Empty], Cells [MarkX, Empty, Empty],
            Rows [4, 5, 6]]
   \<and> view [Cells [MarkX, Empty, Empty], Cells [Empty, MarkO, Empty], Cells [Empty, Empty, Empty],
           Rows [0, 1, 2],
           Cells [MarkX, Empty, Empty], Cells [Empty, MarkO, Empty], Cells [MarkX, Empty, Empty],
           Rows [4, 5, 6]] 7
     = Inr [[MarkX, Empty, Empty], [Empty, MarkO, Empty], [MarkX, Empty, Empty]]
   \<and> view [Cells [MarkX, Empty, Empty], Cells [Empty, MarkO, Empty], Cells [Empty, Empty, Empty],
           Rows [0, 1, 2],
           Cells [MarkX, Empty, Empty], Cells [Empty, MarkO, Empty], Cells [MarkX, Empty, Empty],
           Rows [4, 5, 6]] 3
     = Inr [[MarkX, Empty, Empty], [Empty, MarkO, Empty], [Empty, Empty, Empty]]"
proof -
  let ?g = "\<lparr>board = [[MarkX, Empty, Empty], [Empty, MarkO, Empty], [Empty, Empty, Empty]],
             current_player = MarkX\<rparr>"
  let ?h = "[Cells [MarkX, Empty, Empty], Cells [Empty, MarkO, Empty], Cells [Empty, Empty, Empty],
             Rows [0, 1, 2]]"
  let ?h1 = "[Cells [MarkX, Empty, Empty], Cells [Empty, MarkO, Empty],
              Cells [Empty, Empty, Empty], Rows [0, 1, 2],
              Cells [MarkX, Empty, Empty], Cells [Empty, MarkO, Empty],
              Cells [Empty, Empty, Empty], Rows [4, 5, 6]]"
  let ?h2 = "[Cells [MarkX, Empty, Empty], Cells [Empty, MarkO, Empty],
              Cells [Empty, Empty, Empty], Rows [0, 1, 2],
              Cells [MarkX, Empty, Empty], Cells [Empty, MarkO, Empty],
              Cells [MarkX, Empty, Empty], Rows [4, 5, 6]]"
  have h: "view ?h 3 = Inr (board ?g)" by code_simp
  have c: "store_get_board ?h 3 = Inr (?h1, 7)" by code_simp
  have a: "store_assign_cell ?h1 7 2 0 MarkX = Inr ?h2" by code_simp
  have v: "view ?h2 7 = Inr [[MarkX, Empty, Empty], [Empty, MarkO, Empty], [MarkX, Empty, Empty]]"
    by code_simp
  from get_board_independent [OF h] c
  have "\<forall>i j v h2. store_assign_cell ?h1 7 i j v = Inr h2 \<longrightarrow> view h2 3 = Inr (board ?g)"
    by auto
  with a have "view ?h2 3 = Inr (board ?g)" by blast
  with h c a v show ?thesis by simp
qed

section \<open>The grid of values and the store\<close>

text \<open>
  The functions on \<open>game\<close> treat the board as a grid of values. That is what the
  methods do to the list objects as long as the three rows are three different
  objects: the construction yields such a board, and \<open>make_move\<close> on the store then
  does to the grid what \<open>make_move\<close> on the value does, keeping the row objects.
  Where rows are one object the two differ, which is why the effect of an accepted
  move on the other cells is stated on the store.
\<close>

lemma store_new_board_eq:
  "store_new_board h =
     (h @ [Cells [Empty, Empty, Empty], Cells [Empty, Empty, Empty], Cells [Empty, Empty, Empty],
           Rows [length h, length h + 1, length h + 2]],
      length h + 3)"
  by (simp add: store_new_board_def alloc_def upt_rec)

lemma store_new_board_rows:
  assumes "store_new_board h = (h', p)"
  shows "\<exists>as. rows_of h' p = Inr as \<and> distinct as \<and> views h' as = Inr new_board"
proof -
  from assms have h': "h' = h @ [Cells [Empty, Empty, Empty], Cells [Empty, Empty, Empty],
      Cells [Empty, Empty, Empty], Rows [length h, length h + 1, length h + 2]]"
    and p: "p = length h + 3"
    by (simp_all add: store_new_board_eq)
  have "rows_of h' p = Inr [length h, length h + 1, length h + 2]"
    unfolding h' p by (simp add: rows_of_def nth_append)
  moreover have "views h' [length h, length h + 1, length h + 2] = Inr new_board"
    unfolding h' by (simp add: cells_of_def nth_append new_board_cells)
  ultimately show ?thesis by simp
qed

lemma py_index_cases:
  obtains (out) "py_index n i = Inl IndexError"
    | (within) k where "k < n" "py_index n i = Inr k"
proof (cases "0 \<le> i \<and> i < int n")
  case True
  then have "nat i < n" by arith
  with True show ?thesis by (intro within [of "nat i"]) (simp_all add: py_index_def)
next
  case False
  show ?thesis
  proof (cases "i < 0 \<and> 0 \<le> int n + i")
    case True
    then have "nat (int n + i) < n" by arith
    with True False show ?thesis
      by (intro within [of "nat (int n + i)"]) (simp_all add: py_index_def)
  next
    case False
    with \<open>\<not> (0 \<le> i \<and> i < int n)\<close> show ?thesis
      by (intro out) (simp_all add: py_index_def)
  qed
qed

lemma views_update:
  assumes "views h as = Inr b" "distinct as" "k < length as"
  shows "views (h[as ! k := Cells r]) as = Inr (b[k := r])"
proof -
  from assms(1) have l: "length as = length b"
    and c: "\<And>i. i < length as \<Longrightarrow> cells_of h (as ! i) = Inr (b ! i)"
    unfolding views_iff by (auto simp: list_all2_conv_all_nth)
  have "cells_of (h[as ! k := Cells r]) (as ! i) = Inr (b[k := r] ! i)" if "i < length as" for i
  proof (cases "i = k")
    case True
    with c [OF that] l that show ?thesis
      by (auto simp: cells_of_def split: if_splits)
  next
    case False
    with assms(2,3) that have "as ! i \<noteq> as ! k" by (simp add: nth_eq_iff_index_eq)
    with c [OF that] False show ?thesis
      by (auto simp: cells_of_def split: if_splits)
  qed
  with l show ?thesis
    unfolding views_iff by (simp add: list_all2_conv_all_nth)
qed

lemma rows_of_update:
  assumes "rows_of h p = Inr as" "cells_of h a = Inr cs"
  shows "rows_of (h[a := Cells r]) p = Inr as"
proof -
  from assms have "a \<noteq> p" by (auto simp: rows_of_def cells_of_def split: if_splits obj.splits)
  with assms(1) show ?thesis by (auto simp: rows_of_def split: if_splits)
qed

lemma store_make_move_refines:
  assumes as: "rows_of h p = Inr as" and d: "distinct as" and v: "views h as = Inr b"
  shows "(\<forall>e. make_move \<lparr>board = b, current_player = cp\<rparr> row col = Inl e
            \<longrightarrow> store_make_move h p cp row col = Inl e)
    \<and> (\<forall>ok g'. make_move \<lparr>board = b, current_player = cp\<rparr> row col = Inr (ok, g')
          \<longrightarrow> (\<exists>h'. store_make_move h p cp row col = Inr (ok, h', current_player g')
                 \<and> rows_of h' p = Inr as \<and> views h' as = Inr (board g')))"
proof (cases "(0 \<le> row \<and> row < 3) \<and> (0 \<le> col \<and> col < 3)")
  case False
  with as v show ?thesis by (simp add: make_move_def store_make_move_def)
next
  case True
  from v have l: "length as = length b"
    and c: "\<And>i. i < length as \<Longrightarrow> cells_of h (as ! i) = Inr (b ! i)"
    unfolding views_iff by (auto simp: list_all2_conv_all_nth)
  show ?thesis
  proof (cases rule: py_index_cases [where n = "length b" and i = row])
    case out
    with l True as show ?thesis
      by (simp add: make_move_def store_make_move_def py_getitem_def)
  next
    case (within k)
    from within(1) l have k: "k < length as" by simp
    have gb: "py_getitem b row = Inr (b ! k)" using within(2) by (simp add: py_getitem_def)
    have ga: "py_getitem as row = Inr (as ! k)" using within(2) l by (simp add: py_getitem_def)
    note ck = c [OF k]
    show ?thesis
    proof (cases rule: py_index_cases [where n = "length (b ! k)" and i = col])
      case out
      then have "py_getitem (b ! k) col = Inl IndexError" by (simp add: py_getitem_def)
      with gb ga ck True as show ?thesis
        by (simp add: make_move_def store_make_move_def)
    next
      case inner: (within j)
      have gc: "py_getitem (b ! k) col = Inr (b ! k ! j)"
        using inner(2) by (simp add: py_getitem_def)
      show ?thesis
      proof (cases "b ! k ! j = Empty")
        case False
        with gc gb ga ck True as v show ?thesis
          by (simp add: make_move_def store_make_move_def)
      next
        case Empty: True
        let ?r = "(b ! k)[j := cp]"
        have sc: "py_setitem (b ! k) col cp = Inr ?r"
          using inner(2) by (simp add: py_setitem_def)
        have sb: "py_setitem b row ?r = Inr (b[k := ?r])"
          using within(2) by (simp add: py_setitem_def)
        have mv: "make_move \<lparr>board = b, current_player = cp\<rparr> row col
            = Inr (True, \<lparr>board = b[k := ?r],
                          current_player = (if cp = MarkX then MarkO else MarkX)\<rparr>)"
          using True gb gc Empty sc sb by (simp add: make_move_def)
        have asg: "store_assign_cell h p row col cp = Inr (h[as ! k := Cells ?r])"
          using as ga ck sc by (simp add: store_assign_cell_def)
        have smv: "store_make_move h p cp row col
            = Inr (True, h[as ! k := Cells ?r], if cp = MarkX then MarkO else MarkX)"
          using True as ga ck gc Empty asg by (simp add: store_make_move_def)
        have "rows_of (h[as ! k := Cells ?r]) p = Inr as"
          using as ck by (rule rows_of_update)
        moreover have "views (h[as ! k := Cells ?r]) as = Inr (b[k := ?r])"
          using v d k by (rule views_update)
        ultimately show ?thesis using mv smv by simp
      qed
    qed
  qed
qed

section \<open>An accepted move on the store\<close>









end
